theory Spec2Isabelle
  imports Main
begin

section \<open>Values, callbacks and the state of one emitter\<close>

text \<open>
  The development embeds \<^verbatim>\<open>src/index.ts\<close>, the class \<^verbatim>\<open>BasicEventEmitter\<close>.
  Every method becomes a function from the state before the call to the state after it.
  An event key is a string. An argument tuple is a list of values. The methods
  \<^verbatim>\<open>pipe\<close> and \<^verbatim>\<open>pipeOnce\<close>, which forward to a second emitter, are not part of
  this development.
\<close>

datatype jsval = Undefined | Num int | Str string | Bool bool | PromiseRef nat

type_synonym event = string

text \<open>
  A callback is a function value, compared by reference. Four kinds of function reach the
  registry:
  \<^item> \<open>ReadyListener\<close>, the arrow function of the constructor, whose body is
    \<^verbatim>\<open>this._ready = true\<close>;
  \<^item> functions of the embedding code, each with a reference \<open>n\<close>; every call is recorded
    in \<open>calls\<close> with the arguments received. \<open>User n r\<close> then returns \<open>r\<close>;
    \<open>Throws n e\<close> throws \<open>e\<close>; \<open>CallsOff n event callback\<close> calls
    \<^verbatim>\<open>off(event, callback)\<close> on the emitter it listens to, as the \<^verbatim>\<open>stop\<close> of a handle
    does, and \<open>CallsOffOnce n event callback\<close> calls \<^verbatim>\<open>offOnce(event, callback)\<close>. A
    listener that subscribes or emits while it is being dispatched is not represented;
  \<^item> \<open>OurCallback p callback\<close>, the closure \<^verbatim>\<open>ourCallback\<close> that \<^verbatim>\<open>once\<close> builds around
    the resolve function of its promise \<open>p\<close>;
  \<^item> \<open>AsyncListener p callback\<close>, the async arrow function that \<^verbatim>\<open>ready\<close> hands to
    \<^verbatim>\<open>once\<close>, built around the resolve function of the promise \<open>p\<close>.
\<close>

datatype error = Error string

datatype 'a result = Returned 'a | Thrown error

datatype callback =
    ReadyListener
  | User nat jsval
  | Throws nat error
  | CallsOff nat event "callback option"
  | CallsOffOnce nat event "callback option"
  | OurCallback nat "callback option"
  | AsyncListener nat "callback option"

record subscription =
  s_event :: event
  s_callback :: callback
  s_once :: bool

text \<open>
  Promises live in a store, addressed by position. A pending promise holds the
  continuations waiting for it. The job queue holds the microtasks not yet run.
\<close>

datatype cont =
    ReadyAfterAwait nat
  | ListenerAfterAwait nat nat
  | ResolveWith nat

datatype job = Reaction cont jsval | Rejection cont error | Thenable nat nat

datatype pstate = Pending "cont list" | Fulfilled jsval | Rejected error

record state =
  subscriptions :: "subscription list"
  oneTimeEvents :: "event \<rightharpoonup> jsval list"
  ready_flag :: bool
  promises :: "pstate list"
  jobs :: "job list"
  calls :: "(nat \<times> jsval list) list"

datatype completion = Return | Throw error

record BasicEventHandler =
  h_event :: event
  h_callback :: callback

section \<open>Promises and microtasks\<close>

definition new_promise :: "state \<Rightarrow> nat \<times> state" where
  "new_promise st = (length (promises st), st\<lparr>promises := promises st @ [Pending []]\<rparr>)"

definition enqueue :: "job \<Rightarrow> state \<Rightarrow> state" where
  "enqueue j st = st\<lparr>jobs := jobs st @ [j]\<rparr>"

text \<open>Fulfilling a pending promise queues one reaction job for each waiting continuation.
  A promise already fulfilled stays as it is.\<close>

definition fulfil :: "nat \<Rightarrow> jsval \<Rightarrow> state \<Rightarrow> state" where
  "fulfil p v st =
     (if p < length (promises st) then
        (case promises st ! p of
           Pending ks \<Rightarrow>
             st\<lparr>promises := (promises st)[p := Fulfilled v],
                jobs := jobs st @ map (\<lambda>k. Reaction k v) ks\<rparr>
         | Fulfilled w \<Rightarrow> st
         | Rejected e \<Rightarrow> st)
      else st)"

definition reject :: "nat \<Rightarrow> error \<Rightarrow> state \<Rightarrow> state" where
  "reject p e st =
     (if p < length (promises st) then
        (case promises st ! p of
           Pending ks \<Rightarrow>
             st\<lparr>promises := (promises st)[p := Rejected e],
                jobs := jobs st @ map (\<lambda>k. Rejection k e) ks\<rparr>
         | Fulfilled w \<Rightarrow> st
         | Rejected e' \<Rightarrow> st)
      else st)"

text \<open>The resolve function of promise \<open>p\<close>: a promise value is adopted through a job of
  its own, any other value fulfils \<open>p\<close> at once.\<close>

definition resolve :: "nat \<Rightarrow> jsval \<Rightarrow> state \<Rightarrow> state" where
  "resolve p v st =
     (case v of PromiseRef q \<Rightarrow> enqueue (Thenable p q) st | _ \<Rightarrow> fulfil p v st)"

definition perform_then :: "nat \<Rightarrow> cont \<Rightarrow> state \<Rightarrow> state" where
  "perform_then q k st =
     (if q < length (promises st) then
        (case promises st ! q of
           Pending ks \<Rightarrow> st\<lparr>promises := (promises st)[q := Pending (ks @ [k])]\<rparr>
         | Fulfilled v \<Rightarrow> enqueue (Reaction k v) st
         | Rejected e \<Rightarrow> enqueue (Rejection k e) st)
      else st)"

text \<open>\<^verbatim>\<open>await v\<close> suspends the running async function: its continuation \<open>k\<close> never
  runs inside the current call, it runs as a later job with the awaited value.\<close>

definition await :: "jsval \<Rightarrow> cont \<Rightarrow> state \<Rightarrow> state" where
  "await v k st =
     (case v of PromiseRef q \<Rightarrow> perform_then q k st | _ \<Rightarrow> enqueue (Reaction k v) st)"



section \<open>Unsubscribing\<close>

text \<open>\<^verbatim>\<open>callback && s.callback !== callback\<close>: an omitted callback is falsy.\<close>

definition differs :: "callback option \<Rightarrow> subscription \<Rightarrow> bool" where
  "differs callback s = (case callback of None \<Rightarrow> False | Some c \<Rightarrow> s_callback s \<noteq> c)"

definition off :: "event \<Rightarrow> callback option \<Rightarrow> state \<Rightarrow> state" where
  "off event callback st =
     st\<lparr>subscriptions :=
          filter (\<lambda>s. s_event s \<noteq> event \<or> differs callback s) (subscriptions st)\<rparr>"

definition offOnce :: "event \<Rightarrow> callback option \<Rightarrow> state \<Rightarrow> state" where
  "offOnce event callback st =
     st\<lparr>subscriptions :=
          filter (\<lambda>s. s_event s \<noteq> event \<or> differs callback s \<or> \<not> s_once s)
            (subscriptions st)\<rparr>"

definition stop :: "BasicEventHandler \<Rightarrow> state \<Rightarrow> state" where
  "stop h st = off (h_event h) (Some (h_callback h)) st"

definition remove :: "BasicEventHandler \<Rightarrow> state \<Rightarrow> state" where
  "remove h st = stop h st"

section \<open>Calling a callback\<close>

text \<open>
  \<open>call\<close> gives the outcome of the call, a value returned or an error thrown, and the
  state after it; \<open>optional_call\<close> is the optional call \<^verbatim>\<open>callback?.(...)\<close>.
  \<^item> \<^verbatim>\<open>ourCallback\<close> (lines 209 to 212): \<^verbatim>\<open>resolve(); callback?.(...arg);\<close>. What the
    callback throws passes through.
  \<^item> the async listener of \<^verbatim>\<open>ready\<close> (lines 67 to 70): the call allocates the promise
    of the async function, runs \<^verbatim>\<open>callback?.()\<close> without arguments, and suspends at
    \<^verbatim>\<open>await\<close>. An async function throws nothing: what the callback throws rejects
    the promise of the function.
\<close>

definition record_call :: "nat \<Rightarrow> jsval list \<Rightarrow> state \<Rightarrow> state" where
  "record_call n arg st = st\<lparr>calls := calls st @ [(n, arg)]\<rparr>"

fun call :: "callback \<Rightarrow> jsval list \<Rightarrow> state \<Rightarrow> jsval result \<times> state"
  and optional_call :: "callback option \<Rightarrow> jsval list \<Rightarrow> state \<Rightarrow> jsval result \<times> state" where
  "call ReadyListener arg st = (Returned Undefined, st\<lparr>ready_flag := True\<rparr>)"
| "call (User n r) arg st = (Returned r, record_call n arg st)"
| "call (Throws n e) arg st = (Thrown e, record_call n arg st)"
| "call (CallsOff n event callback) arg st =
     (Returned Undefined, off event callback (record_call n arg st))"
| "call (CallsOffOnce n event callback) arg st =
     (Returned Undefined, offOnce event callback (record_call n arg st))"
| "call (OurCallback p callback) arg st =
     (case optional_call callback arg (resolve p Undefined st) of
        (Returned v, st1) \<Rightarrow> (Returned Undefined, st1)
      | (Thrown e, st1) \<Rightarrow> (Thrown e, st1))"
| "call (AsyncListener p callback) arg st =
     (let (a, st1) = new_promise st in
      case optional_call callback [] st1 of
        (Returned response, st2) \<Rightarrow>
          (Returned (PromiseRef a), await response (ListenerAfterAwait p a) st2)
      | (Thrown e, st2) \<Rightarrow> (Returned (PromiseRef a), reject a e st2))"
| "optional_call None arg st = (Returned Undefined, st)"
| "optional_call (Some c) arg st = call c arg st"

text \<open>\<^verbatim>\<open>function runCallback(callback, ...arg) { callback(...arg); }\<close>: the value
  returned is dropped, an error thrown passes through.\<close>

definition runCallback :: "callback \<Rightarrow> jsval list \<Rightarrow> state \<Rightarrow> completion \<times> state" where
  "runCallback callback arg st =
     (case call callback arg st of
        (Returned v, st1) \<Rightarrow> (Return, st1)
      | (Thrown e, st1) \<Rightarrow> (Throw e, st1))"





section \<open>The methods of BasicEventEmitter\<close>

definition has :: "state \<Rightarrow> event \<Rightarrow> bool" where
  "has st event = (oneTimeEvents st event \<noteq> None)"

text \<open>\<^verbatim>\<open>this[_oneTimeEvents].get(event) ?? []\<close>\<close>

definition get_or_empty :: "state \<Rightarrow> event \<Rightarrow> jsval list" where
  "get_or_empty st event = (case oneTimeEvents st event of None \<Rightarrow> [] | Some arg \<Rightarrow> arg)"

text \<open>\<^verbatim>\<open>on\<close> returns its handle unless the replayed callback throws.\<close>

definition on :: "event \<Rightarrow> callback \<Rightarrow> state \<Rightarrow> BasicEventHandler result \<times> state" where
  "on event callback st =
     (if has st event then
        (case runCallback callback (get_or_empty st event) st of
           (Throw e, st1) \<Rightarrow> (Thrown e, st1)
         | (Return, st1) \<Rightarrow> (Returned \<lparr>h_event = event, h_callback = callback\<rparr>, st1))
      else
        (Returned \<lparr>h_event = event, h_callback = callback\<rparr>,
         st\<lparr>subscriptions := subscriptions st @
              [\<lparr>s_event = event, s_callback = callback, s_once = False\<rparr>]\<rparr>))"

text \<open>\<^verbatim>\<open>once\<close> runs its body inside the executor of \<^verbatim>\<open>new Promise\<close>. An error thrown
  there by the replayed callback is caught by the promise constructor; the promise was
  resolved by \<^verbatim>\<open>ourCallback\<close> before the callback ran, so the error changes nothing.\<close>

definition once :: "event \<Rightarrow> callback option \<Rightarrow> state \<Rightarrow> nat \<times> state" where
  "once event callback st =
     (let (p, st1) = new_promise st;
          ourCallback = OurCallback p callback
      in (p,
          if has st1 event then snd (runCallback ourCallback (get_or_empty st1 event) st1)
          else st1\<lparr>subscriptions := subscriptions st1 @
                 [\<lparr>s_event = event, s_callback = ourCallback, s_once = True\<rparr>]\<rparr>))"

text \<open>\<^verbatim>\<open>this[_subscriptions].splice(i, 1)\<close>: at an index past the end nothing is
  removed.\<close>

definition splice1 :: "'a list \<Rightarrow> nat \<Rightarrow> 'a list" where
  "splice1 xs i = take i xs @ drop (i + 1) xs"

text \<open>
  The loop of \<^verbatim>\<open>emit\<close> (lines 271 to 281). The length and the entry at \<open>i\<close> are read from
  the registry as it is at each turn, after whatever the listeners called so far did to
  it. An error thrown by a listener ends the loop and the call. After a splice the source
  runs \<^verbatim>\<open>i--\<close> and then the \<^verbatim>\<open>i++\<close> of the loop header, which leaves \<open>i\<close> where it was.
\<close>

function emit_loop :: "event \<Rightarrow> jsval list \<Rightarrow> nat \<Rightarrow> state \<Rightarrow> completion \<times> state" where
  "emit_loop event arg i st =
     (if i < length (subscriptions st) then
        (let s = subscriptions st ! i in
         if s_event s \<noteq> event then emit_loop event arg (i + 1) st
         else
           (case runCallback (s_callback s) arg st of
              (Throw e, st1) \<Rightarrow> (Throw e, st1)
            | (Return, st1) \<Rightarrow>
                if s_once s
                then emit_loop event arg i (st1\<lparr>subscriptions := splice1 (subscriptions st1) i\<rparr>)
                else emit_loop event arg (i + 1) st1))
      else (Return, st))"
  by pat_completeness auto

definition sealed_message :: "event \<Rightarrow> string" where
  "sealed_message event =
     ''Event '' @ [CHR 0x22] @ event @ [CHR 0x22] @ '' was supposed to be emitted only once''"

definition emit :: "event \<Rightarrow> jsval list \<Rightarrow> state \<Rightarrow> completion \<times> state" where
  "emit event arg st =
     (if has st event then (Throw (Error (sealed_message event)), st)
      else emit_loop event arg 0 st)"

definition emitOnce :: "event \<Rightarrow> jsval list \<Rightarrow> state \<Rightarrow> completion \<times> state" where
  "emitOnce event arg st =
     (if has st event then (Throw (Error (sealed_message event)), st)
      else
        (case emit event arg st of
           (Throw e, st1) \<Rightarrow> (Throw e, st1)
         | (Return, st1) \<Rightarrow>
             (Return, offOnce event None (st1\<lparr>oneTimeEvents := (oneTimeEvents st1)(event \<mapsto> arg)\<rparr>))))"

definition clearEvents :: "state \<Rightarrow> state" where
  "clearEvents st = st\<lparr>subscriptions := [], oneTimeEvents := Map.empty\<rparr>"

text \<open>The constructor: empty registry, empty record map, \<^verbatim>\<open>_ready = false\<close>, then
  \<^verbatim>\<open>this.on("internal_ready", () => { this._ready = true; })\<close>. A new emitter starts
  here with no promise, no job and no call made.\<close>

definition constructor :: state where
  "constructor =
     snd (on ''internal_ready'' ReadyListener
       \<lparr>subscriptions = [], oneTimeEvents = Map.empty, ready_flag = False,
        promises = [], jobs = [], calls = []\<rparr>)"

definition prepared :: "state \<Rightarrow> bool" where
  "prepared st = ready_flag st"

text \<open>The setter (lines 110 to 112): \<^verbatim>\<open>(this.emit as any)("internal_ready")\<close>. The value
  assigned is not read.\<close>

definition set_prepared :: "bool \<Rightarrow> state \<Rightarrow> completion \<times> state" where
  "set_prepared value st = emit ''internal_ready'' [] st"


section \<open>What a dispatch is to achieve\<close>

text \<open>
  The reference description of one emission, against which the loop is compared: the
  callbacks of the subscriptions for the event are called one after the other, in registry
  order, each once and with the arguments of the emission; afterwards the registry has
  lost the one-time subscriptions for the event and nothing else.
\<close>

definition spec_dispatch :: "event \<Rightarrow> jsval list \<Rightarrow> subscription list \<Rightarrow> state \<Rightarrow> state" where
  "spec_dispatch event arg ss st =
     foldl (\<lambda>st' s. snd (runCallback (s_callback s) arg st')) st
       (filter (\<lambda>s. s_event s = event) ss)"

definition spec_registry_after :: "event \<Rightarrow> subscription list \<Rightarrow> subscription list" where
  "spec_registry_after event ss = filter (\<lambda>s. \<not> (s_event s = event \<and> s_once s)) ss"

text \<open>The calls of functions of the embedding code that one call of a callback makes.\<close>

fun calls_made :: "callback \<Rightarrow> jsval list \<Rightarrow> (nat \<times> jsval list) list"
  and optional_calls_made :: "callback option \<Rightarrow> jsval list \<Rightarrow> (nat \<times> jsval list) list" where
  "calls_made ReadyListener arg = []"
| "calls_made (User n r) arg = [(n, arg)]"
| "calls_made (Throws n e) arg = [(n, arg)]"
| "calls_made (CallsOff n event callback) arg = [(n, arg)]"
| "calls_made (CallsOffOnce n event callback) arg = [(n, arg)]"
| "calls_made (OurCallback p callback) arg = optional_calls_made callback arg"
| "calls_made (AsyncListener p callback) arg = optional_calls_made callback []"
| "optional_calls_made None arg = []"
| "optional_calls_made (Some c) arg = calls_made c arg"

text \<open>A callback that throws nothing to its caller.\<close>

fun returns :: "callback \<Rightarrow> bool" and optional_returns :: "callback option \<Rightarrow> bool" where
  "returns ReadyListener = True"
| "returns (User n r) = True"
| "returns (Throws n e) = False"
| "returns (CallsOff n event callback) = True"
| "returns (CallsOffOnce n event callback) = True"
| "returns (OurCallback p callback) = optional_returns callback"
| "returns (AsyncListener p callback) = True"
| "optional_returns None = True"
| "optional_returns (Some c) = returns c"

text \<open>A callback that throws nothing to its caller and does not call back into the
  emitter.\<close>

fun quiet :: "callback \<Rightarrow> bool" and optional_quiet :: "callback option \<Rightarrow> bool" where
  "quiet ReadyListener = True"
| "quiet (User n r) = True"
| "quiet (Throws n e) = False"
| "quiet (CallsOff n event callback) = False"
| "quiet (CallsOffOnce n event callback) = False"
| "quiet (OurCallback p callback) = optional_quiet callback"
| "quiet (AsyncListener p callback) = optional_quiet callback"
| "optional_quiet None = True"
| "optional_quiet (Some c) = quiet c"


definition listeners_quiet :: "event \<Rightarrow> subscription list \<Rightarrow> bool" where
  "listeners_quiet event ss = list_all (\<lambda>s. s_event s = event \<longrightarrow> quiet (s_callback s)) ss"

section \<open>Promises that other jobs leave alone\<close>










section \<open>Sample emitters\<close>


text \<open>The scenario of the specification: \<^verbatim>\<open>emitOnce("boot", 42)\<close> on a new emitter.\<close>

definition booted :: state where
  "booted = snd (emitOnce ''boot'' [Num 42] constructor)"

text \<open>A new emitter after \<^verbatim>\<open>prepared = true\<close>.\<close>

definition ready_emitter :: state where
  "ready_emitter = snd (set_prepared True constructor)"

text \<open>One listener for \<open>greet\<close> registered with \<^verbatim>\<open>on\<close>, on a new emitter.\<close>

definition listening :: state where
  "listening = snd (on ''greet'' (User 1 Undefined) constructor)"

text \<open>The example of the README for \<^verbatim>\<open>once\<close>: a listener that returns a string. The
  pair holds the promise returned and the state.\<close>

definition waiting :: "nat \<times> state" where
  "waiting = once ''greet'' (Some (User 1 (Str ''Listener called.''))) constructor"








section \<open>What a callback can do to the registry and the record map\<close>

lemma subscriptions_fulfil [simp]: "subscriptions (fulfil p v st) = subscriptions st"
  by (simp add: fulfil_def split: pstate.splits)

lemma subscriptions_reject [simp]: "subscriptions (reject p e st) = subscriptions st"
  by (simp add: reject_def split: pstate.splits)

lemma subscriptions_enqueue [simp]: "subscriptions (enqueue j st) = subscriptions st"
  by (simp add: enqueue_def)

lemma subscriptions_resolve [simp]: "subscriptions (resolve p v st) = subscriptions st"
  by (simp add: resolve_def split: jsval.splits)

lemma subscriptions_perform_then [simp]:
  "subscriptions (perform_then q k st) = subscriptions st"
  by (simp add: perform_then_def split: pstate.splits)

lemma subscriptions_await [simp]: "subscriptions (await v k st) = subscriptions st"
  by (simp add: await_def split: jsval.splits)

lemma subscriptions_new_promise [simp]:
  "subscriptions (snd (new_promise st)) = subscriptions st"
  by (simp add: new_promise_def)

lemma oneTimeEvents_fulfil [simp]: "oneTimeEvents (fulfil p v st) = oneTimeEvents st"
  by (simp add: fulfil_def split: pstate.splits)

lemma oneTimeEvents_reject [simp]: "oneTimeEvents (reject p e st) = oneTimeEvents st"
  by (simp add: reject_def split: pstate.splits)

lemma oneTimeEvents_enqueue [simp]: "oneTimeEvents (enqueue j st) = oneTimeEvents st"
  by (simp add: enqueue_def)

lemma oneTimeEvents_resolve [simp]: "oneTimeEvents (resolve p v st) = oneTimeEvents st"
  by (simp add: resolve_def split: jsval.splits)

lemma oneTimeEvents_perform_then [simp]:
  "oneTimeEvents (perform_then q k st) = oneTimeEvents st"
  by (simp add: perform_then_def split: pstate.splits)

lemma oneTimeEvents_await [simp]: "oneTimeEvents (await v k st) = oneTimeEvents st"
  by (simp add: await_def split: jsval.splits)

lemma oneTimeEvents_new_promise [simp]:
  "oneTimeEvents (snd (new_promise st)) = oneTimeEvents st"
  by (simp add: new_promise_def)

text \<open>No callback touches the record map, and none makes the registry longer or puts
  into it an entry that was not there.\<close>

lemma call_shrinks:
  "oneTimeEvents (snd (call c arg st)) = oneTimeEvents st \<and>
   length (subscriptions (snd (call c arg st))) \<le> length (subscriptions st) \<and>
   set (subscriptions (snd (call c arg st))) \<subseteq> set (subscriptions st)"
  "oneTimeEvents (snd (optional_call co arg st)) = oneTimeEvents st \<and>
   length (subscriptions (snd (optional_call co arg st))) \<le> length (subscriptions st) \<and>
   set (subscriptions (snd (optional_call co arg st))) \<subseteq> set (subscriptions st)"
proof (induction c arg st and co arg st rule: call_optional_call.induct)
  case (6 p callback arg st)
  then show ?case
    by (cases "optional_call callback arg (resolve p Undefined st)";
        cases "fst (optional_call callback arg (resolve p Undefined st))") auto
next
  case (7 p callback arg st)
  from "7.IH"[of "new_promise st" "fst (new_promise st)" "snd (new_promise st)"]
  show ?case
    by (cases "optional_call callback [] (snd (new_promise st))";
        cases "fst (optional_call callback [] (snd (new_promise st)))")
       (auto simp: split_def Let_def)
qed (auto simp: record_call_def off_def offOnce_def)

lemma snd_runCallback: "snd (runCallback c arg st) = snd (call c arg st)"
  by (simp add: runCallback_def split: prod.splits result.splits)

lemma runCallback_oneTimeEvents [simp]:
  "oneTimeEvents (snd (runCallback c arg st)) = oneTimeEvents st"
  by (simp add: snd_runCallback call_shrinks)

lemma runCallback_length:
  "length (subscriptions (snd (runCallback c arg st))) \<le> length (subscriptions st)"
  by (simp add: snd_runCallback call_shrinks)


lemma length_splice1: "length (splice1 xs i) = (if i < length xs then length xs - 1 else length xs)"
  by (auto simp: splice1_def)

lemma runCallback_lengthD:
  "runCallback c arg st = (x, st1) \<Longrightarrow> length (subscriptions st1) \<le> length (subscriptions st)"
  using runCallback_length[of c arg st] by simp

termination emit_loop
proof (relation "measure (\<lambda>(event, arg, i, st). length (subscriptions st) - i)", goal_cases)
  case 1
  show ?case by simp
next
  case 2
  then show ?case by simp
next
  case 3
  then show ?case
    by (auto simp: length_splice1 dest!: runCallback_lengthD[OF sym])
next
  case 4
  then show ?case
    by (auto dest!: runCallback_lengthD[OF sym])
qed

declare emit_loop.simps [simp del]


section \<open>Quiet callbacks\<close>

lemma fulfil_subscriptions_update:
  "fulfil p v (st\<lparr>subscriptions := xs\<rparr>) = (fulfil p v st)\<lparr>subscriptions := xs\<rparr>"
  by (simp add: fulfil_def split: pstate.splits)

lemma reject_subscriptions_update:
  "reject p e (st\<lparr>subscriptions := xs\<rparr>) = (reject p e st)\<lparr>subscriptions := xs\<rparr>"
  by (simp add: reject_def split: pstate.splits)

lemma enqueue_subscriptions_update:
  "enqueue j (st\<lparr>subscriptions := xs\<rparr>) = (enqueue j st)\<lparr>subscriptions := xs\<rparr>"
  by (simp add: enqueue_def)

lemma resolve_subscriptions_update:
  "resolve p v (st\<lparr>subscriptions := xs\<rparr>) = (resolve p v st)\<lparr>subscriptions := xs\<rparr>"
  by (simp add: resolve_def fulfil_subscriptions_update enqueue_subscriptions_update
        split: jsval.splits)

lemma perform_then_subscriptions_update:
  "perform_then q k (st\<lparr>subscriptions := xs\<rparr>) =
     (perform_then q k st)\<lparr>subscriptions := xs\<rparr>"
  by (simp add: perform_then_def enqueue_subscriptions_update split: pstate.splits)

lemma await_subscriptions_update:
  "await v k (st\<lparr>subscriptions := xs\<rparr>) = (await v k st)\<lparr>subscriptions := xs\<rparr>"
  by (simp add: await_def perform_then_subscriptions_update enqueue_subscriptions_update
        split: jsval.splits)

lemma new_promise_subscriptions_update:
  "new_promise (st\<lparr>subscriptions := xs\<rparr>) =
     (fst (new_promise st), (snd (new_promise st))\<lparr>subscriptions := xs\<rparr>)"
  by (simp add: new_promise_def)

lemma call_returns:
  "returns c \<longrightarrow> (\<exists>v. fst (call c arg st) = Returned v)"
  "optional_returns co \<longrightarrow> (\<exists>v. fst (optional_call co arg st) = Returned v)"
proof (induction c arg st and co arg st rule: call_optional_call.induct)
  case (6 p callback arg st)
  then show ?case
    by (cases "optional_call callback arg (resolve p Undefined st)") auto
next
  case (7 p callback arg st)
  show ?case
    by (cases "optional_call callback [] (snd (new_promise st))";
        cases "fst (optional_call callback [] (snd (new_promise st)))")
       (auto simp: split_def Let_def)
qed auto

lemma quiet_returns:
  "quiet c \<longrightarrow> returns c" "optional_quiet co \<longrightarrow> optional_returns co"
  by (induction c and co rule: quiet_optional_quiet.induct) auto

lemma call_quiet:
  "quiet c \<longrightarrow>
     subscriptions (snd (call c arg st)) = subscriptions st \<and>
     (\<forall>xs. call c arg (st\<lparr>subscriptions := xs\<rparr>) =
            (fst (call c arg st), (snd (call c arg st))\<lparr>subscriptions := xs\<rparr>))"
  "optional_quiet co \<longrightarrow>
     subscriptions (snd (optional_call co arg st)) = subscriptions st \<and>
     (\<forall>xs. optional_call co arg (st\<lparr>subscriptions := xs\<rparr>) =
            (fst (optional_call co arg st), (snd (optional_call co arg st))\<lparr>subscriptions := xs\<rparr>))"
proof (induction c arg st and co arg st rule: call_optional_call.induct)
  case (2 n r arg st)
  show ?case by (simp add: record_call_def)
next
  case (6 p callback arg st)
  show ?case
  proof
    assume "quiet (OurCallback p callback)"
    with 6 have ih: "subscriptions (snd (optional_call callback arg (resolve p Undefined st))) =
        subscriptions (resolve p Undefined st)"
      and up: "\<And>xs. optional_call callback arg ((resolve p Undefined st)\<lparr>subscriptions := xs\<rparr>) =
        (fst (optional_call callback arg (resolve p Undefined st)),
         (snd (optional_call callback arg (resolve p Undefined st)))\<lparr>subscriptions := xs\<rparr>)"
      by simp_all
    show "subscriptions (snd (call (OurCallback p callback) arg st)) = subscriptions st \<and>
      (\<forall>xs. call (OurCallback p callback) arg (st\<lparr>subscriptions := xs\<rparr>) =
        (fst (call (OurCallback p callback) arg st),
         (snd (call (OurCallback p callback) arg st))\<lparr>subscriptions := xs\<rparr>))"
      using ih
      by (cases "optional_call callback arg (resolve p Undefined st)";
          cases "fst (optional_call callback arg (resolve p Undefined st))")
         (auto simp: resolve_subscriptions_update up)
  qed
next
  case (7 p callback arg st)
  let ?n = "snd (new_promise st)"
  show ?case
  proof
    assume "quiet (AsyncListener p callback)"
    with "7.IH"[of "new_promise st" "fst (new_promise st)" ?n]
    have ih: "subscriptions (snd (optional_call callback [] ?n)) = subscriptions ?n"
      and up: "\<And>xs. optional_call callback [] (?n\<lparr>subscriptions := xs\<rparr>) =
        (fst (optional_call callback [] ?n),
         (snd (optional_call callback [] ?n))\<lparr>subscriptions := xs\<rparr>)"
      by simp_all
    show "subscriptions (snd (call (AsyncListener p callback) arg st)) = subscriptions st \<and>
      (\<forall>xs. call (AsyncListener p callback) arg (st\<lparr>subscriptions := xs\<rparr>) =
        (fst (call (AsyncListener p callback) arg st),
         (snd (call (AsyncListener p callback) arg st))\<lparr>subscriptions := xs\<rparr>))"
      using ih
      by (cases "optional_call callback [] ?n"; cases "fst (optional_call callback [] ?n)")
         (auto simp: split_def Let_def new_promise_subscriptions_update up
            await_subscriptions_update reject_subscriptions_update)
  qed
qed simp_all

lemma runCallback_returns: "returns c \<Longrightarrow> fst (runCallback c arg st) = Return"
  using call_returns(1)[of c arg st]
  by (cases "call c arg st") (auto simp: runCallback_def)

lemma runCallback_quiet:
  assumes "quiet c"
  shows "runCallback c arg st = (Return, snd (call c arg st))"
    and "subscriptions (snd (runCallback c arg st)) = subscriptions st"
    and "snd (runCallback c arg (st\<lparr>subscriptions := xs\<rparr>)) =
           (snd (runCallback c arg st))\<lparr>subscriptions := xs\<rparr>"
proof -
  from assms have "returns c" by (simp add: quiet_returns)
  from runCallback_returns[OF this, of arg st]
  show "runCallback c arg st = (Return, snd (call c arg st))"
    by (cases "runCallback c arg st") (simp add: snd_runCallback[symmetric])
  from assms show "subscriptions (snd (runCallback c arg st)) = subscriptions st"
    by (simp add: snd_runCallback call_quiet)
  from assms show "snd (runCallback c arg (st\<lparr>subscriptions := xs\<rparr>)) =
      (snd (runCallback c arg st))\<lparr>subscriptions := xs\<rparr>"
    by (simp add: snd_runCallback call_quiet)
qed

section \<open>The loop against its description\<close>

lemma spec_dispatch_Nil [simp]: "spec_dispatch event arg [] st = st"
  by (simp add: spec_dispatch_def)

lemma spec_dispatch_Cons:
  "spec_dispatch event arg (s # ss) st =
     (if s_event s = event then spec_dispatch event arg ss (snd (runCallback (s_callback s) arg st))
      else spec_dispatch event arg ss st)"
  by (simp add: spec_dispatch_def)

lemma listeners_quiet_Cons:
  "listeners_quiet event (s # ss) =
     ((s_event s = event \<longrightarrow> quiet (s_callback s)) \<and> listeners_quiet event ss)"
  by (simp add: listeners_quiet_def)

lemma spec_dispatch_subscriptions_update:
  "listeners_quiet event ss \<Longrightarrow>
   spec_dispatch event arg ss (st\<lparr>subscriptions := xs\<rparr>) =
     (spec_dispatch event arg ss st)\<lparr>subscriptions := xs\<rparr>"
  by (induction ss arbitrary: st)
     (auto simp: spec_dispatch_Cons listeners_quiet_Cons snd_runCallback call_quiet)

lemma spec_dispatch_subscriptions:
  "listeners_quiet event ss \<Longrightarrow>
   subscriptions (spec_dispatch event arg ss st) = subscriptions st"
  by (induction ss arbitrary: st)
     (auto simp: spec_dispatch_Cons listeners_quiet_Cons snd_runCallback call_quiet)

lemma emit_loop_spec:
  "i \<le> length (subscriptions st) \<Longrightarrow> listeners_quiet event (drop i (subscriptions st)) \<Longrightarrow>
   emit_loop event arg i st =
     (Return,
      (spec_dispatch event arg (drop i (subscriptions st)) st)
        \<lparr>subscriptions := take i (subscriptions st) @
           spec_registry_after event (drop i (subscriptions st))\<rparr>)"
proof (induction event arg i st rule: emit_loop.induct)
  case (1 event arg i st)
  let ?xs = "subscriptions st"
  show ?case
  proof (cases "i < length ?xs")
    case False
    with "1.prems" have "i = length ?xs" by simp
    then show ?thesis
      by (subst emit_loop.simps) (simp add: spec_registry_after_def)
  next
    case inside: True
    let ?s = "?xs ! i"
    let ?rest = "drop (Suc i) ?xs"
    have dr: "drop i ?xs = ?s # ?rest"
      using inside by (simp add: Cons_nth_drop_Suc)
    have tk: "take (Suc i) ?xs = take i ?xs @ [?s]"
      using inside by (simp add: take_Suc_conv_app_nth)
    from "1.prems"(2) have qrest: "listeners_quiet event ?rest"
      and qs: "s_event ?s = event \<longrightarrow> quiet (s_callback ?s)"
      by (simp_all add: dr listeners_quiet_Cons)
    show ?thesis
    proof (cases "s_event ?s = event")
      case False
      have "emit_loop event arg i st = emit_loop event arg (i + 1) st"
        using inside False by (subst emit_loop.simps) simp
      also have "\<dots> = (Return, (spec_dispatch event arg ?rest st)
          \<lparr>subscriptions := take (Suc i) ?xs @ spec_registry_after event ?rest\<rparr>)"
        using "1.IH"(1)[OF inside refl False] inside qrest by simp
      finally show ?thesis
        using False by (simp add: dr tk spec_dispatch_Cons spec_registry_after_def)
    next
      case match: True
      with qs have q: "quiet (s_callback ?s)" by simp
      let ?st1 = "snd (call (s_callback ?s) arg st)"
      have run: "runCallback (s_callback ?s) arg st = (Return, ?st1)"
        by (rule runCallback_quiet(1)[OF q])
      have sub1: "subscriptions ?st1 = ?xs"
        using runCallback_quiet(2)[OF q, of arg st] by (simp add: run)
      show ?thesis
      proof (cases "s_once ?s")
        case True
        let ?st2 = "?st1\<lparr>subscriptions := splice1 ?xs i\<rparr>"
        have d2: "drop i (splice1 ?xs i) = ?rest"
          using inside by (simp add: splice1_def)
        have t2: "take i (splice1 ?xs i) = take i ?xs"
          using inside by (simp add: splice1_def)
        have "emit_loop event arg i st = emit_loop event arg i ?st2"
          using inside match True by (subst emit_loop.simps) (simp add: run sub1)
        also have "\<dots> = (Return, (spec_dispatch event arg ?rest ?st2)
            \<lparr>subscriptions := take i ?xs @ spec_registry_after event ?rest\<rparr>)"
          using "1.IH"(2)[OF inside refl _ run[symmetric] refl True] match inside qrest
          by (simp add: d2 t2 sub1 splice1_def)
        finally show ?thesis
          using match True qrest
          by (simp add: dr spec_dispatch_Cons spec_registry_after_def
                spec_dispatch_subscriptions_update run)
      next
        case False
        have "emit_loop event arg i st = emit_loop event arg (i + 1) ?st1"
          using inside match False by (subst emit_loop.simps) (simp add: run)
        also have "\<dots> = (Return, (spec_dispatch event arg ?rest ?st1)
            \<lparr>subscriptions := take (Suc i) ?xs @ spec_registry_after event ?rest\<rparr>)"
          using "1.IH"(3)[OF inside refl _ run[symmetric] refl False] match inside qrest
          by (simp add: sub1)
        finally show ?thesis
          using match False by (simp add: dr tk spec_dispatch_Cons spec_registry_after_def run)
      qed
    qed
  qed
qed

lemma emit_unsealed:
  "\<not> has st event \<Longrightarrow> listeners_quiet event (subscriptions st) \<Longrightarrow>
   emit event arg st =
     (Return, (spec_dispatch event arg (subscriptions st) st)
                \<lparr>subscriptions := spec_registry_after event (subscriptions st)\<rparr>)"
  by (simp add: emit_def emit_loop_spec)




section \<open>Callbacks and the record of calls\<close>

lemma calls_fulfil [simp]: "calls (fulfil p v st) = calls st"
  by (simp add: fulfil_def split: pstate.splits)

lemma calls_reject [simp]: "calls (reject p e st) = calls st"
  by (simp add: reject_def split: pstate.splits)

lemma calls_enqueue [simp]: "calls (enqueue j st) = calls st"
  by (simp add: enqueue_def)

lemma calls_resolve [simp]: "calls (resolve p v st) = calls st"
  by (simp add: resolve_def split: jsval.splits)

lemma calls_perform_then [simp]: "calls (perform_then q k st) = calls st"
  by (simp add: perform_then_def split: pstate.splits)

lemma calls_await [simp]: "calls (await v k st) = calls st"
  by (simp add: await_def split: jsval.splits)

lemma calls_new_promise [simp]: "calls (snd (new_promise st)) = calls st"
  by (simp add: new_promise_def)

lemma call_calls:
  "calls (snd (call c arg st)) = calls st @ calls_made c arg"
  "calls (snd (optional_call co arg st)) = calls st @ optional_calls_made co arg"
proof (induction c arg st and co arg st rule: call_optional_call.induct)
  case (6 p callback arg st)
  then show ?case
    by (cases "optional_call callback arg (resolve p Undefined st)";
        cases "fst (optional_call callback arg (resolve p Undefined st))") auto
next
  case (7 p callback arg st)
  from "7.IH"[of "new_promise st" "fst (new_promise st)" "snd (new_promise st)"]
  show ?case
    by (cases "optional_call callback [] (snd (new_promise st))";
        cases "fst (optional_call callback [] (snd (new_promise st)))")
       (auto simp: split_def Let_def)
qed (simp_all add: record_call_def off_def offOnce_def)

lemma runCallback_calls: "calls (snd (runCallback c arg st)) = calls st @ calls_made c arg"
  by (simp add: snd_runCallback call_calls)

lemma spec_dispatch_calls:
  "calls (spec_dispatch event arg ss st) =
     calls st @ concat (map (\<lambda>s. calls_made (s_callback s) arg)
                         (filter (\<lambda>s. s_event s = event) ss))"
  by (induction ss arbitrary: st) (simp_all add: spec_dispatch_Cons runCallback_calls)

section \<open>The sample emitters, evaluated\<close>

lemma constructor_eval:
  "constructor =
     \<lparr>subscriptions =
        [\<lparr>s_event = ''internal_ready'', s_callback = ReadyListener, s_once = False\<rparr>],
      oneTimeEvents = Map.empty, ready_flag = False, promises = [], jobs = [], calls = []\<rparr>"
  by (simp add: constructor_def on_def has_def)


lemma booted_eval:
  "booted =
     \<lparr>subscriptions =
        [\<lparr>s_event = ''internal_ready'', s_callback = ReadyListener, s_once = False\<rparr>],
      oneTimeEvents = [''boot'' \<mapsto> [Num 42]], ready_flag = False, promises = [], jobs = [],
      calls = []\<rparr>"
  by (simp add: booted_def emitOnce_def emit_unsealed has_def constructor_eval offOnce_def
        differs_def listeners_quiet_def spec_registry_after_def spec_dispatch_Cons)








section \<open>Dispatch by emit\<close>




section \<open>Emission of a sealed event\<close>




section \<open>Subscribing with on\<close>

text \<open>
  Claim C3. If \<open>E\<close> has a permanent record, \<open>on E cb\<close> calls \<open>cb\<close> inside the call with the
  stored arguments and adds nothing to the registry: the state after \<open>on\<close> is the state
  after that call of \<open>cb\<close>, which for a quiet \<open>cb\<close> has the registry as it was, and a
  function of the embedding code is recorded as called once with the stored arguments.
  Otherwise \<open>on E cb\<close> only appends one subscription for \<open>E\<close> and \<open>cb\<close> with
  \<open>once = false\<close> at the end of the registry and returns its handle.
\<close>

theorem on_replays_or_subscribes:
  "(case oneTimeEvents st E of
      Some a \<Rightarrow>
        snd (on E cb st) = snd (runCallback cb a st) \<and>
        (quiet cb \<longrightarrow>
           fst (on E cb st) = Returned \<lparr>h_event = E, h_callback = cb\<rparr> \<and>
           subscriptions (snd (on E cb st)) = subscriptions st) \<and>
        calls (snd (on E cb st)) = calls st @ calls_made cb a
    | None \<Rightarrow>
        on E cb st =
          (Returned \<lparr>h_event = E, h_callback = cb\<rparr>,
           st\<lparr>subscriptions := subscriptions st @
                [\<lparr>s_event = E, s_callback = cb, s_once = False\<rparr>]\<rparr>))"
proof (cases "oneTimeEvents st E")
  case None
  then show ?thesis by (simp add: on_def has_def)
next
  case (Some a)
  then have eq: "on E cb st =
      (case runCallback cb a st of
         (Throw e, st1) \<Rightarrow> (Thrown e, st1)
       | (Return, st1) \<Rightarrow> (Returned \<lparr>h_event = E, h_callback = cb\<rparr>, st1))"
    by (simp add: on_def has_def get_or_empty_def)
  have s: "snd (on E cb st) = snd (runCallback cb a st)"
    unfolding eq by (cases "runCallback cb a st"; cases "fst (runCallback cb a st)") auto
  have q: "quiet cb \<Longrightarrow> fst (on E cb st) = Returned \<lparr>h_event = E, h_callback = cb\<rparr>"
    unfolding eq by (simp add: runCallback_quiet(1))
  from Some s q show ?thesis
    by (simp add: runCallback_calls runCallback_quiet(2))
qed

theorem on_replays_or_subscribes_witness:
  "quiet (User 9 Undefined) \<and>
   calls (snd (on ''boot'' (User 9 Undefined) booted)) = [(9, [Num 42])] \<and>
   subscriptions (snd (on ''boot'' (User 9 Undefined) booted)) = subscriptions booted \<and>
   subscriptions (snd (on ''greet'' (User 9 Undefined) booted)) =
     subscriptions booted @
       [\<lparr>s_event = ''greet'', s_callback = User 9 Undefined, s_once = False\<rparr>] \<and>
   calls (snd (on ''greet'' (User 9 Undefined) booted)) = []"
proof -
  have s: "oneTimeEvents booted ''boot'' = Some [Num 42]"
    and u: "oneTimeEvents booted ''greet'' = None" and c: "calls booted = []"
    by (simp_all add: booted_eval)
  have q: "quiet (User 9 Undefined)" by simp
  note t = on_replays_or_subscribes[where st = booted and E = "''boot''"
      and cb = "User 9 Undefined", unfolded s option.case]
  have a: "calls (snd (on ''boot'' (User 9 Undefined) booted)) = [(9, [Num 42])]"
    using t[THEN conjunct2, THEN conjunct2] by (simp add: c)
  have b: "subscriptions (snd (on ''boot'' (User 9 Undefined) booted)) = subscriptions booted"
    using t[THEN conjunct2, THEN conjunct1, THEN mp, OF q] by (rule conjunct2)
  from on_replays_or_subscribes[where st = booted and E = "''greet''" and cb = "User 9 Undefined"]
  have d: "on ''greet'' (User 9 Undefined) booted =
      (Returned \<lparr>h_event = ''greet'', h_callback = User 9 Undefined\<rparr>,
       booted\<lparr>subscriptions := subscriptions booted @
         [\<lparr>s_event = ''greet'', s_callback = User 9 Undefined, s_once = False\<rparr>]\<rparr>)"
    by (simp add: u)
  show ?thesis
    by (simp add: a b d c)
qed

section \<open>Sealing twice\<close>

text \<open>
  Claim C6. If \<open>E\<close> is sealed with arguments \<open>a\<close>, then \<open>emitOnce E b\<close> throws and the state
  at the throw is the state before the call: the record of \<open>E\<close> is still \<open>a\<close> and the
  registry is the same.
\<close>

theorem emitOnce_sealed_unchanged:
  assumes "oneTimeEvents st E = Some a"
  shows "emitOnce E b st = (Throw (Error (sealed_message E)), st) \<and>
         oneTimeEvents (snd (emitOnce E b st)) E = Some a \<and>
         subscriptions (snd (emitOnce E b st)) = subscriptions st"
  using assms by (simp add: emitOnce_def has_def)

theorem emitOnce_sealed_unchanged_witness:
  "oneTimeEvents booted ''boot'' = Some [Num 42] \<and>
   emitOnce ''boot'' [Num 7] booted = (Throw (Error (sealed_message ''boot'')), booted) \<and>
   oneTimeEvents (snd (emitOnce ''boot'' [Num 7] booted)) ''boot'' = Some [Num 42]"
proof -
  have h: "oneTimeEvents booted ''boot'' = Some [Num 42]"
    by (simp add: booted_eval)
  from emitOnce_sealed_unchanged[OF h, where b = "[Num 7]"] h show ?thesis
    by simp
qed

section \<open>Clearing\<close>

text \<open>
  Claim C7. \<open>clearEvents\<close> empties the registry and the record map whatever they held and
  leaves \<open>prepared\<close> as it was. After it, \<open>emitOnce E b\<close> returns normally for every \<open>E\<close>,
  also one sealed before, and seals \<open>E\<close> with \<open>b\<close>.
\<close>

theorem clearEvents_resets:
  "subscriptions (clearEvents st) = [] \<and>
   oneTimeEvents (clearEvents st) = Map.empty \<and>
   prepared (clearEvents st) = prepared st \<and>
   fst (emitOnce E b (clearEvents st)) = Return \<and>
   oneTimeEvents (snd (emitOnce E b (clearEvents st))) E = Some b"
  by (simp add: clearEvents_def prepared_def emitOnce_def emit_unsealed has_def offOnce_def
        listeners_quiet_def spec_registry_after_def)

theorem clearEvents_resets_witness:
  "oneTimeEvents booted ''boot'' = Some [Num 42] \<and>
   subscriptions (clearEvents booted) = [] \<and>
   oneTimeEvents (clearEvents booted) ''boot'' = None \<and>
   fst (emitOnce ''boot'' [Num 7] (clearEvents booted)) = Return \<and>
   oneTimeEvents (snd (emitOnce ''boot'' [Num 7] (clearEvents booted))) ''boot'' = Some [Num 7]"
proof -
  have h: "oneTimeEvents booted ''boot'' = Some [Num 42]"
    by (simp add: booted_eval)
  from clearEvents_resets[where st = booted and E = "''boot''" and b = "[Num 7]"] h show ?thesis
    by simp
qed


section \<open>The readiness flag\<close>

lemma ready_flag_fulfil [simp]: "ready_flag (fulfil p v st) = ready_flag st"
  by (simp add: fulfil_def split: pstate.splits)

lemma ready_flag_reject [simp]: "ready_flag (reject p e st) = ready_flag st"
  by (simp add: reject_def split: pstate.splits)

lemma ready_flag_enqueue [simp]: "ready_flag (enqueue j st) = ready_flag st"
  by (simp add: enqueue_def)

lemma ready_flag_resolve [simp]: "ready_flag (resolve p v st) = ready_flag st"
  by (simp add: resolve_def split: jsval.splits)

lemma ready_flag_perform_then [simp]: "ready_flag (perform_then q k st) = ready_flag st"
  by (simp add: perform_then_def split: pstate.splits)

lemma ready_flag_await [simp]: "ready_flag (await v k st) = ready_flag st"
  by (simp add: await_def split: jsval.splits)

lemma ready_flag_new_promise [simp]: "ready_flag (snd (new_promise st)) = ready_flag st"
  by (simp add: new_promise_def)

lemma call_ready_mono:
  "ready_flag st \<longrightarrow> ready_flag (snd (call c arg st))"
  "ready_flag st \<longrightarrow> ready_flag (snd (optional_call co arg st))"
proof (induction c arg st and co arg st rule: call_optional_call.induct)
  case (6 p callback arg st)
  then show ?case
    by (cases "optional_call callback arg (resolve p Undefined st)";
        cases "fst (optional_call callback arg (resolve p Undefined st))") auto
next
  case (7 p callback arg st)
  from "7.IH"[of "new_promise st" "fst (new_promise st)" "snd (new_promise st)"]
  show ?case
    by (cases "optional_call callback [] (snd (new_promise st))";
        cases "fst (optional_call callback [] (snd (new_promise st)))")
       (auto simp: split_def Let_def)
qed (simp_all add: record_call_def off_def offOnce_def)

lemma runCallback_ready_mono: "ready_flag st \<Longrightarrow> ready_flag (snd (runCallback c arg st))"
  by (simp add: snd_runCallback call_ready_mono)

lemma emit_loop_ready_mono:
  "ready_flag st \<Longrightarrow> ready_flag (snd (emit_loop event arg i st))"
proof (induction event arg i st rule: emit_loop.induct)
  case (1 event arg i st)
  let ?s = "subscriptions st ! i"
  show ?case
  proof (cases "i < length (subscriptions st)")
    case False
    with "1.prems" show ?thesis by (subst emit_loop.simps) simp
  next
    case inside: True
    show ?thesis
    proof (cases "s_event ?s = event")
      case False
      with inside "1.IH"(1)[OF inside refl False "1.prems"] show ?thesis
        by (subst emit_loop.simps) simp
    next
      case match: True
      obtain x st1 where run: "runCallback (s_callback ?s) arg st = (x, st1)"
        by (cases "runCallback (s_callback ?s) arg st")
      from runCallback_ready_mono[OF "1.prems", of "s_callback ?s" arg] run
      have f1: "ready_flag st1" by simp
      show ?thesis
      proof (cases x)
        case (Throw e)
        with inside match run f1 show ?thesis
          by (subst emit_loop.simps) simp
      next
        case Return
        note run' = run[unfolded Return]
        show ?thesis
        proof (cases "s_once ?s")
          case True
          from "1.IH"(2)[OF inside refl _ run'[symmetric] refl True] match f1
          have "ready_flag (snd (emit_loop event arg i
              (st1\<lparr>subscriptions := splice1 (subscriptions st1) i\<rparr>)))"
            by simp
          with inside match True show ?thesis
            by (subst emit_loop.simps) (simp add: run')
        next
          case False
          from "1.IH"(3)[OF inside refl _ run'[symmetric] refl False] match f1
          have "ready_flag (snd (emit_loop event arg (i + 1) st1))"
            by simp
          with inside match False show ?thesis
            by (subst emit_loop.simps) (simp add: run')
        qed
      qed
    qed
  qed
qed

lemma emit_ready_mono: "ready_flag st \<Longrightarrow> ready_flag (snd (emit event arg st))"
  by (simp add: emit_def emit_loop_ready_mono)

lemma set_prepared_constructor:
  "set_prepared v constructor = (Return, constructor\<lparr>ready_flag := True\<rparr>)"
  by (simp add: set_prepared_def emit_unsealed has_def constructor_eval listeners_quiet_def
        spec_dispatch_Cons spec_registry_after_def runCallback_def)

lemma ready_emitter_eval:
  "ready_emitter =
     \<lparr>subscriptions =
        [\<lparr>s_event = ''internal_ready'', s_callback = ReadyListener, s_once = False\<rparr>],
      oneTimeEvents = Map.empty, ready_flag = True, promises = [], jobs = [], calls = []\<rparr>"
  by (simp add: ready_emitter_def set_prepared_constructor) (simp add: constructor_eval)

text \<open>
  Claim C8, at \<^verbatim>\<open>const e = new BasicEventEmitter(); e.clearEvents(); e.prepared = true\<close>.
  The readiness listener of the constructor was in the registry that \<^verbatim>\<open>clearEvents\<close>
  emptied; the assignment emits \<open>internal_ready\<close> to no listener, returns normally, and
  \<open>prepared\<close> still reads false.
\<close>

theorem prepared_assignment_after_clearEvents:
  "set_prepared True (clearEvents constructor) = emit ''internal_ready'' [] (clearEvents constructor) \<and>
   fst (set_prepared True (clearEvents constructor)) = Return \<and>
   \<not> prepared (snd (set_prepared True (clearEvents constructor)))"
  by (simp add: set_prepared_def prepared_def clearEvents_def emit_unsealed has_def
        constructor_eval listeners_quiet_def spec_registry_after_def)

text \<open>
  Claim C10. The setter does not read the value assigned: assigning false is the same
  emission of \<open>internal_ready\<close> as assigning true. On a new emitter, assigning false makes
  \<open>prepared\<close> read true. No assignment takes \<open>prepared\<close> from true back to false.
\<close>

theorem prepared_setter_ignores_value:
  "set_prepared False st = set_prepared True st \<and>
   set_prepared v st = emit ''internal_ready'' [] st \<and>
   fst (set_prepared False constructor) = Return \<and>
   prepared (snd (set_prepared False constructor)) \<and>
   (prepared st \<longrightarrow> prepared (snd (set_prepared v st)))"
  by (simp add: set_prepared_constructor prepared_def)
     (simp add: set_prepared_def emit_ready_mono)

theorem prepared_setter_ignores_value_witness:
  "prepared ready_emitter \<and>
   prepared (snd (set_prepared False ready_emitter)) \<and>
   set_prepared False ready_emitter = set_prepared True ready_emitter \<and>
   \<not> prepared constructor \<and>
   prepared (snd (set_prepared False constructor))"
proof -
  have p: "prepared ready_emitter" and q: "\<not> prepared constructor"
    by (simp_all add: ready_emitter_eval constructor_eval prepared_def)
  from prepared_setter_ignores_value[where st = ready_emitter and v = False] p q show ?thesis
    by blast
qed

section \<open>What emitOnce leaves in the registry\<close>

lemma emitOnce_unsealed:
  "\<not> has st event \<Longrightarrow> listeners_quiet event (subscriptions st) \<Longrightarrow>
   emitOnce event arg st =
     (Return, (spec_dispatch event arg (subscriptions st) st)
                \<lparr>subscriptions := spec_registry_after event (subscriptions st),
                 oneTimeEvents := (oneTimeEvents st)(event \<mapsto> arg)\<rparr>)"
proof -
  have "filter (\<lambda>s. s_event s \<noteq> event \<or> \<not> s_once s) (spec_registry_after event xs) =
        spec_registry_after event xs" for xs
    by (induction xs) (auto simp: spec_registry_after_def)
  moreover have "oneTimeEvents (spec_dispatch event arg ss st) = oneTimeEvents st" for ss
    by (induction ss arbitrary: st) (simp_all add: spec_dispatch_Cons)
  moreover assume "\<not> has st event" and "listeners_quiet event (subscriptions st)"
  ultimately show ?thesis
    by (simp add: emitOnce_def emit_unsealed offOnce_def differs_def)
qed

lemma listening_eval:
  "listening =
     \<lparr>subscriptions =
        [\<lparr>s_event = ''internal_ready'', s_callback = ReadyListener, s_once = False\<rparr>,
         \<lparr>s_event = ''greet'', s_callback = User 1 Undefined, s_once = False\<rparr>],
      oneTimeEvents = Map.empty, ready_flag = False, promises = [], jobs = [], calls = []\<rparr>"
  by (simp add: listening_def constructor_eval on_def has_def)

text \<open>
  Claim C4, at \<^verbatim>\<open>on("greet", l); emitOnce("greet", "Alice")\<close> on a new emitter. The
  listener is called with the arguments and they are stored as the record of \<open>greet\<close>, but
  the subscription made with \<^verbatim>\<open>on\<close> is still in the registry afterwards: the last step
  of \<^verbatim>\<open>emitOnce\<close> is \<^verbatim>\<open>offOnce(event)\<close>, which removes one-time subscriptions only.
\<close>

theorem emitOnce_keeps_on_subscription:
  "fst (emitOnce ''greet'' [Str ''Alice''] listening) = Return \<and>
   calls (snd (emitOnce ''greet'' [Str ''Alice''] listening)) = [(1, [Str ''Alice''])] \<and>
   oneTimeEvents (snd (emitOnce ''greet'' [Str ''Alice''] listening)) ''greet'' =
     Some [Str ''Alice''] \<and>
   subscriptions (snd (emitOnce ''greet'' [Str ''Alice''] listening)) =
     [\<lparr>s_event = ''internal_ready'', s_callback = ReadyListener, s_once = False\<rparr>,
      \<lparr>s_event = ''greet'', s_callback = User 1 Undefined, s_once = False\<rparr>]"
proof -
  have "\<not> has listening ''greet''" and "listeners_quiet ''greet'' (subscriptions listening)"
    by (simp_all add: has_def listening_eval listeners_quiet_def)
  then show ?thesis
    by (simp add: emitOnce_unsealed spec_dispatch_calls)
       (simp add: listening_eval spec_registry_after_def)
qed

section \<open>The promise of once\<close>

lemma waiting_eval:
  "waiting =
     (0, \<lparr>subscriptions =
        [\<lparr>s_event = ''internal_ready'', s_callback = ReadyListener, s_once = False\<rparr>,
         \<lparr>s_event = ''greet'',
          s_callback = OurCallback 0 (Some (User 1 (Str ''Listener called.''))),
          s_once = True\<rparr>],
      oneTimeEvents = Map.empty, ready_flag = False, promises = [Pending []], jobs = [],
      calls = []\<rparr>)"
  by (simp add: waiting_def constructor_eval once_def has_def new_promise_def)

text \<open>
  Claim C5, at the example of the README followed by \<^verbatim>\<open>emit("greet", "Alice")\<close>. The
  listener returns a string, and the promise that \<^verbatim>\<open>once\<close> returned is fulfilled with
  undefined. The closure resolves the promise first and calls the listener second, in a
  state where the promise is already fulfilled.
\<close>

theorem once_promise_fulfilled_with_undefined:
  "fst (call (User 1 (Str ''Listener called.'')) [Str ''Alice''] (snd waiting)) =
     Returned (Str ''Listener called.'') \<and>
   calls (snd (emit ''greet'' [Str ''Alice''] (snd waiting))) = [(1, [Str ''Alice''])] \<and>
   promises (snd (emit ''greet'' [Str ''Alice''] (snd waiting))) ! fst waiting =
     Fulfilled Undefined \<and>
   runCallback (OurCallback (fst waiting) (Some (User 1 (Str ''Listener called.''))))
       [Str ''Alice''] (snd waiting) =
     runCallback (User 1 (Str ''Listener called.'')) [Str ''Alice'']
       (resolve (fst waiting) Undefined (snd waiting)) \<and>
   promises (resolve (fst waiting) Undefined (snd waiting)) ! fst waiting = Fulfilled Undefined"
  by (simp add: waiting_eval emit_unsealed has_def listeners_quiet_def spec_dispatch_Cons
        spec_registry_after_def runCallback_def record_call_def resolve_def fulfil_def)


section \<open>Waiting for readiness\<close>











section \<open>Other jobs do not disturb the promise of ready\<close>











































end
